theory Spec2Isabelle
  imports Main "HOL-Library.Word"
begin

section \<open>Data model of websocket-server.js\<close>

text \<open>
  A connection handle (the \<^verbatim>\<open>ws\<close> object of a \<^verbatim>\<open>'connection'\<close> callback) is
  identified by a number; two handles are the same object iff the numbers are equal.
\<close>

type_synonym conn = nat

text \<open>
  The values a field of a parsed JSON envelope can hold. Only three things are ever
  observed of them: strict equality with a string literal (the \<^verbatim>\<open>switch\<close>), use as a
  key of \<^verbatim>\<open>rooms\<close>, and truthiness (\<^verbatim>\<open>message.sender || 'Anonymous'\<close>). Numbers are
  kept as integers, objects and arrays as one opaque value.
\<close>

datatype jsval = JUndefined | JNull | JBool bool | JNum int | JStr string | JObject

fun truthy :: "jsval \<Rightarrow> bool" where
  "truthy JUndefined = False"
| "truthy JNull = False"
| "truthy (JBool b) = b"
| "truthy (JNum n) = (n \<noteq> 0)"
| "truthy (JStr s) = (s \<noteq> [])"
| "truthy JObject = True"

text \<open>
  The fields of an envelope that the handler reads: \<^verbatim>\<open>message.type\<close>,
  \<^verbatim>\<open>message.roomKey\<close>, \<^verbatim>\<open>message.text\<close>, \<^verbatim>\<open>message.sender\<close>. A field that is
  missing reads as \<^verbatim>\<open>undefined\<close>.
\<close>

record envelope =
  mtype :: jsval
  roomKey :: jsval
  mtext :: jsval
  msender :: jsval

text \<open>
  The outcome of \<^verbatim>\<open>JSON.parse(data)\<close> followed by the first property access:
  \<open>ParseError\<close> when \<^verbatim>\<open>JSON.parse\<close> throws or yields \<^verbatim>\<open>null\<close> (reading
  \<^verbatim>\<open>.type\<close> of it throws), \<open>Parsed\<close> otherwise.
\<close>

datatype parsed = ParseError | Parsed envelope

text \<open>The object built at lines 139-144 and stored in a room's \<^verbatim>\<open>messages\<close>.\<close>

record messageData =
  msg_id :: string
  msg_text :: jsval
  msg_timestamp :: int
  msg_sender :: jsval

text \<open>
  A room object (lines 46-50). \<^verbatim>\<open>clients\<close> is a JavaScript \<^verbatim>\<open>Set\<close>: it iterates in
  insertion order and holds no element twice, so it is a list that \<open>set_add\<close> and
  \<open>set_delete\<close> keep free of duplicates. \<^verbatim>\<open>createdAt\<close> is a time in milliseconds.
\<close>

record room =
  clients :: "conn list"
  messages :: "messageData list"
  createdAt :: int

definition set_add :: "'a \<Rightarrow> 'a list \<Rightarrow> 'a list" where
  "set_add x xs = (if x \<in> set xs then xs else xs @ [x])"

definition set_delete :: "'a \<Rightarrow> 'a list \<Rightarrow> 'a list" where
  "set_delete x xs = removeAll x xs"

text \<open>The two global maps of lines 8-9.\<close>

record state =
  rooms :: "string \<rightharpoonup> room"
  clientRooms :: "conn \<rightharpoonup> string"

definition init :: state where
  "init = \<lparr>rooms = Map.empty, clientRooms = Map.empty\<rparr>"

text \<open>The objects handed to \<^verbatim>\<open>client.send(JSON.stringify(...))\<close>.\<close>

datatype server_msg =
    Connected
  | RoomCreated string
  | JoinError string
  | RoomJoined string nat
  | ChatMessage messageData
  | ParticipantJoined nat
  | ParticipantLeft nat
  | RoomLeft
  | ErrorReply string
  | Pong

type_synonym outputs = "(conn \<times> server_msg) list"

text \<open>
  What the handler reads from outside the two maps while it processes one event:
  each connection's \<^verbatim>\<open>readyState === WebSocket.OPEN\<close>, the bytes of
  \<^verbatim>\<open>crypto.randomBytes(4)\<close>, the result of \<^verbatim>\<open>crypto.randomUUID()\<close>, and the clock.
\<close>

type_synonym byte = "8 word"

record env =
  isOpen :: "conn \<Rightarrow> bool"
  randomBytes :: "byte \<times> byte \<times> byte \<times> byte"
  randomUUID :: string
  now :: int

section \<open>Helper functions\<close>

text \<open>\<^verbatim>\<open>buffer.toString('hex')\<close>: two lower-case hexadecimal digits for each byte.\<close>

definition hexDigit :: "nat \<Rightarrow> char" where
  "hexDigit n = ''0123456789abcdef'' ! (n mod 16)"

definition toHex :: "byte list \<Rightarrow> string" where
  "toHex bs = concat (map (\<lambda>b. [hexDigit (unat b div 16), hexDigit (unat b mod 16)]) bs)"

text \<open>\<^verbatim>\<open>String.prototype.toUpperCase\<close> on ASCII text.\<close>

definition upperChar :: "char \<Rightarrow> char" where
  "upperChar c =
     (case map_of (zip ''abcdefghijklmnopqrstuvwxyz'' ''ABCDEFGHIJKLMNOPQRSTUVWXYZ'') c of
        None \<Rightarrow> c
      | Some u \<Rightarrow> u)"

definition toUpperCase :: "string \<Rightarrow> string" where
  "toUpperCase s = map upperChar s"

text \<open>Lines 12-14.\<close>

definition generateRoomKey :: "byte \<times> byte \<times> byte \<times> byte \<Rightarrow> string" where
  "generateRoomKey r = (case r of (a, b, c, d) \<Rightarrow> toUpperCase (toHex [a, b, c, d]))"

text \<open>
  \<^verbatim>\<open>array.slice(-n)\<close>: the last \<open>n\<close> elements, or the whole array when it is shorter.
\<close>

definition slice_last :: "nat \<Rightarrow> 'a list \<Rightarrow> 'a list" where
  "slice_last n xs = drop (length xs - n) xs"

text \<open>Lines 29-33.\<close>

definition sendToClient :: "env \<Rightarrow> conn \<Rightarrow> server_msg \<Rightarrow> outputs" where
  "sendToClient e client m = (if isOpen e client then [(client, m)] else [])"

text \<open>Lines 17-26.\<close>

definition broadcastToRoom ::
  "env \<Rightarrow> (string \<rightharpoonup> room) \<Rightarrow> string \<Rightarrow> server_msg \<Rightarrow> conn \<Rightarrow> outputs" where
  "broadcastToRoom e rs roomId m sndr =
     (case rs roomId of
        None \<Rightarrow> []
      | Some rm \<Rightarrow>
          concat (map (\<lambda>client. if client \<noteq> sndr \<and> isOpen e client then [(client, m)] else [])
                      (clients rm)))"

section \<open>The message handler (lines 38-214)\<close>

text \<open>Lines 43-62.\<close>

definition create_room :: "env \<Rightarrow> conn \<Rightarrow> state \<Rightarrow> state \<times> outputs" where
  "create_room e ws s =
     (let key = generateRoomKey (randomBytes e);
          newRoom = \<lparr>clients = [ws], messages = [], createdAt = now e\<rparr>
      in (\<lparr>rooms = (rooms s)(key \<mapsto> newRoom), clientRooms = (clientRooms s)(ws \<mapsto> key)\<rparr>,
          sendToClient e ws (RoomCreated key)))"

text \<open>
  \<^verbatim>\<open>rooms.get(joinKey)\<close>: every key of \<^verbatim>\<open>rooms\<close> is a string, so a \<^verbatim>\<open>roomKey\<close>
  field that is not a string finds nothing.
\<close>

fun rooms_get :: "(string \<rightharpoonup> room) \<Rightarrow> jsval \<Rightarrow> (string \<times> room) option" where
  "rooms_get rs (JStr k) = (case rs k of None \<Rightarrow> None | Some rm \<Rightarrow> Some (k, rm))"
| "rooms_get rs _ = None"

text \<open>
  Lines 77-88, the part of \<^verbatim>\<open>join_room\<close> that leaves the current room. Room objects
  are shared: \<^verbatim>\<open>existingRoom\<close> was read from \<^verbatim>\<open>rooms\<close> before, and when the current
  room is the room being joined, \<^verbatim>\<open>room\<close> and \<^verbatim>\<open>existingRoom\<close> are one object. The
  function therefore returns the map together with the value of \<^verbatim>\<open>existingRoom\<close>
  after the deletion. \<^verbatim>\<open>if (currentRoom)\<close> is false for \<^verbatim>\<open>undefined\<close> and for the
  empty string.
\<close>

definition leave_current ::
  "conn \<Rightarrow> string \<Rightarrow> room \<Rightarrow> state \<Rightarrow> (string \<rightharpoonup> room) \<times> room" where
  "leave_current ws joinKey existingRoom s =
     (case clientRooms s ws of
        None \<Rightarrow> (rooms s, existingRoom)
      | Some currentRoom \<Rightarrow>
          if currentRoom = [] then (rooms s, existingRoom)
          else
            (case rooms s currentRoom of
               None \<Rightarrow> (rooms s, existingRoom)
             | Some rm \<Rightarrow>
                 let rm' = rm\<lparr>clients := set_delete ws (clients rm)\<rparr>;
                     existingRoom' = (if currentRoom = joinKey then rm' else existingRoom)
                 in if length (clients rm') = 0
                    then ((rooms s)(currentRoom := None), existingRoom')
                    else ((rooms s)(currentRoom \<mapsto> rm'), existingRoom')))"

text \<open>
  Lines 64-116. After the current room is left, \<^verbatim>\<open>existingRoom.clients.add(ws)\<close>
  changes the object \<^verbatim>\<open>existingRoom\<close>; the map shows the change only when the object
  is still stored in it, which is when \<^verbatim>\<open>joinKey\<close> is still a key (no other object is
  stored under \<^verbatim>\<open>joinKey\<close> in between).
\<close>

definition join_room :: "env \<Rightarrow> conn \<Rightarrow> jsval \<Rightarrow> state \<Rightarrow> state \<times> outputs" where
  "join_room e ws jk s =
     (case rooms_get (rooms s) jk of
        None \<Rightarrow> (s, sendToClient e ws (JoinError ''Room not found''))
      | Some (joinKey, existingRoom) \<Rightarrow>
          (case leave_current ws joinKey existingRoom s of
             (rs1, existingRoom1) \<Rightarrow>
               let existingRoom2 = existingRoom1\<lparr>clients := set_add ws (clients existingRoom1)\<rparr>;
                   rs2 = (if rs1 joinKey = None then rs1 else rs1(joinKey \<mapsto> existingRoom2))
               in (\<lparr>rooms = rs2, clientRooms = (clientRooms s)(ws \<mapsto> joinKey)\<rparr>,
                   sendToClient e ws (RoomJoined joinKey (length (clients existingRoom2)))
                   @ concat (map (\<lambda>msg. sendToClient e ws (ChatMessage msg))
                                 (slice_last 10 (messages existingRoom2)))
                   @ broadcastToRoom e rs2 joinKey
                       (ParticipantJoined (length (clients existingRoom2))) ws)))"

text \<open>
  Lines 146-152: push the message, then keep the last 50 when there are more.
\<close>

definition record_message :: "messageData list \<Rightarrow> messageData \<Rightarrow> messageData list" where
  "record_message ms m =
     (let ms1 = ms @ [m] in if length ms1 > 50 then slice_last 50 ms1 else ms1)"

text \<open>
  Lines 139-144. The timestamp is kept as the clock value that \<^verbatim>\<open>toISOString\<close> prints.
\<close>

definition make_message :: "env \<Rightarrow> envelope \<Rightarrow> messageData" where
  "make_message e m =
     \<lparr>msg_id = randomUUID e, msg_text = mtext m, msg_timestamp = now e,
      msg_sender = (if truthy (msender m) then msender m else JStr ''Anonymous'')\<rparr>"

text \<open>
  \<^verbatim>\<open>message.text.substring(0, 50)\<close> at line 164 throws a TypeError unless
  \<^verbatim>\<open>message.text\<close> is a string; the \<^verbatim>\<open>catch\<close> of line 206 then sends the
  invalid-format error. The room was already changed and the message already sent.
\<close>

fun is_string :: "jsval \<Rightarrow> bool" where
  "is_string (JStr _) = True"
| "is_string _ = False"

text \<open>Lines 118-165.\<close>

definition send_message :: "env \<Rightarrow> conn \<Rightarrow> envelope \<Rightarrow> state \<Rightarrow> state \<times> outputs" where
  "send_message e ws m s =
     (case clientRooms s ws of
        None \<Rightarrow> (s, sendToClient e ws (ErrorReply ''Not in a room''))
      | Some roomId \<Rightarrow>
          if roomId = [] then (s, sendToClient e ws (ErrorReply ''Not in a room''))
          else
            (case rooms s roomId of
               None \<Rightarrow> (s, sendToClient e ws (ErrorReply ''Room not found''))
             | Some rm \<Rightarrow>
                 let md = make_message e m;
                     rm' = rm\<lparr>messages := record_message (messages rm) md\<rparr>
                 in (s\<lparr>rooms := (rooms s)(roomId \<mapsto> rm')\<rparr>,
                     concat (map (\<lambda>client. if isOpen e client
                                            then sendToClient e client (ChatMessage md) else [])
                                 (clients rm'))
                     @ (if is_string (mtext m) then []
                        else sendToClient e ws (ErrorReply ''Invalid message format'')))))"

text \<open>
  Lines 170-185 and 220-235, the same statements in \<^verbatim>\<open>leave_room\<close> and in the
  \<^verbatim>\<open>'close'\<close> callback: remove the connection from the room, notify the others,
  delete the room when it is empty. \<^verbatim>\<open>broadcastToRoom\<close> reads the room from the map,
  where it still is at that moment.
\<close>

definition leave_bound :: "env \<Rightarrow> conn \<Rightarrow> string \<Rightarrow> state \<Rightarrow> (string \<rightharpoonup> room) \<times> outputs" where
  "leave_bound e ws roomId s =
     (case rooms s roomId of
        None \<Rightarrow> (rooms s, [])
      | Some rm \<Rightarrow>
          let rm' = rm\<lparr>clients := set_delete ws (clients rm)\<rparr>;
              rs1 = (rooms s)(roomId \<mapsto> rm');
              out = broadcastToRoom e rs1 roomId (ParticipantLeft (length (clients rm'))) ws
          in if length (clients rm') = 0 then (rs1(roomId := None), out) else (rs1, out))"

text \<open>Lines 167-193.\<close>

definition leave_room :: "env \<Rightarrow> conn \<Rightarrow> state \<Rightarrow> state \<times> outputs" where
  "leave_room e ws s =
     (case clientRooms s ws of
        None \<Rightarrow> (s, [])
      | Some leaveRoomId \<Rightarrow>
          if leaveRoomId = [] then (s, [])
          else
            (case leave_bound e ws leaveRoomId s of
               (rs1, out) \<Rightarrow>
                 (\<lparr>rooms = rs1, clientRooms = (clientRooms s)(ws := None)\<rparr>,
                  out @ sendToClient e ws RoomLeft)))"

text \<open>Lines 42-213: the \<^verbatim>\<open>switch\<close> on \<^verbatim>\<open>message.type\<close> inside the \<^verbatim>\<open>try\<close>.\<close>

fun on_message :: "env \<Rightarrow> conn \<Rightarrow> parsed \<Rightarrow> state \<Rightarrow> state \<times> outputs" where
  "on_message e ws ParseError s = (s, sendToClient e ws (ErrorReply ''Invalid message format''))"
| "on_message e ws (Parsed m) s =
     (if mtype m = JStr ''create_room'' then create_room e ws s
      else if mtype m = JStr ''join_room'' then join_room e ws (roomKey m) s
      else if mtype m = JStr ''send_message'' then send_message e ws m s
      else if mtype m = JStr ''leave_room'' then leave_room e ws s
      else if mtype m = JStr ''ping'' then (s, sendToClient e ws Pong)
      else (s, sendToClient e ws (ErrorReply ''Unknown message type'')))"

section \<open>The other callbacks\<close>

text \<open>Lines 216-240.\<close>

definition on_close :: "env \<Rightarrow> conn \<Rightarrow> state \<Rightarrow> state \<times> outputs" where
  "on_close e ws s =
     (case clientRooms s ws of
        None \<Rightarrow> (s, [])
      | Some roomId \<Rightarrow>
          if roomId = [] then (s, [])
          else
            (case leave_bound e ws roomId s of
               (rs1, out) \<Rightarrow> (\<lparr>rooms = rs1, clientRooms = (clientRooms s)(ws := None)\<rparr>, out)))"

text \<open>Lines 246-251, the welcome message of a new connection.\<close>

definition on_connection :: "env \<Rightarrow> conn \<Rightarrow> state \<Rightarrow> state \<times> outputs" where
  "on_connection e ws s = (s, sendToClient e ws Connected)"

text \<open>Lines 255-265, the periodic sweep of rooms that are empty and older than an hour.\<close>

definition sweep :: "env \<Rightarrow> state \<Rightarrow> state \<times> outputs" where
  "sweep e s =
     (s\<lparr>rooms := (\<lambda>k. case rooms s k of
                        None \<Rightarrow> None
                      | Some rm \<Rightarrow>
                          if length (clients rm) = 0 \<and> createdAt rm < now e - 60 * 60 * 1000
                          then None else Some rm)\<rparr>, [])"

section \<open>Runs of the server\<close>

datatype event = Connection conn | Message conn parsed | Close conn | Sweep

fun step :: "env \<times> event \<Rightarrow> state \<Rightarrow> state \<times> outputs" where
  "step (e, Connection ws) s = on_connection e ws s"
| "step (e, Message ws data) s = on_message e ws data s"
| "step (e, Close ws) s = on_close e ws s"
| "step (e, Sweep) s = sweep e s"

fun run :: "state \<Rightarrow> (env \<times> event) list \<Rightarrow> state \<times> outputs" where
  "run s [] = (s, [])"
| "run s (ev # evs) =
     (case step ev s of (s1, out1) \<Rightarrow> (case run s1 evs of (s2, out2) \<Rightarrow> (s2, out1 @ out2)))"

definition reachable :: "state \<Rightarrow> bool" where
  "reachable s = (\<exists>evs. fst (run init evs) = s)"

section \<open>Concrete requests and environments\<close>

text \<open>An environment in which every transport is open.\<close>

definition all_open :: "byte \<times> byte \<times> byte \<times> byte \<Rightarrow> string \<Rightarrow> int \<Rightarrow> env" where
  "all_open r u t = \<lparr>isOpen = (\<lambda>_. True), randomBytes = r, randomUUID = u, now = t\<rparr>"

text \<open>The envelopes \<^verbatim>\<open>{type}\<close>, \<^verbatim>\<open>{type:'join_room', roomKey}\<close> and
  \<^verbatim>\<open>{type:'send_message', text}\<close>.\<close>

definition request :: "string \<Rightarrow> parsed" where
  "request ty = Parsed \<lparr>mtype = JStr ty, roomKey = JUndefined, mtext = JUndefined, msender = JUndefined\<rparr>"

definition join_request :: "string \<Rightarrow> parsed" where
  "join_request k =
     Parsed \<lparr>mtype = JStr ''join_room'', roomKey = JStr k, mtext = JUndefined, msender = JUndefined\<rparr>"

definition send_request :: "string \<Rightarrow> parsed" where
  "send_request txt =
     Parsed \<lparr>mtype = JStr ''send_message'', roomKey = JUndefined, mtext = JStr txt,
             msender = JUndefined\<rparr>"

definition bytesA :: "byte \<times> byte \<times> byte \<times> byte" where
  "bytesA = (0xAB, 0xCD, 0x12, 0x34)"

definition bytesB :: "byte \<times> byte \<times> byte \<times> byte" where
  "bytesB = (0x00, 0x00, 0x00, 0x2A)"

text \<open>
  Two connections in room \<^verbatim>\<open>ABCD1234\<close>: connection 1 created it, connection 2
  joined it.
\<close>

definition two_in_room :: state where
  "two_in_room =
     fst (run init
       [(all_open bytesA ''u0'' 1000, Message 1 (request ''create_room'')),
        (all_open bytesB ''u1'' 1001, Message 2 (join_request ''ABCD1234''))])"

text \<open>
  Connection 1 creates room \<^verbatim>\<open>ABCD1234\<close> and then joins the room it is alone in.
\<close>

definition rejoined_alone :: state where
  "rejoined_alone =
     fst (run init
       [(all_open bytesA ''u0'' 1000, Message 1 (request ''create_room'')),
        (all_open bytesB ''u1'' 1001, Message 1 (join_request ''ABCD1234''))])"

text \<open>A room whose history holds \<open>n\<close> messages, numbered from 0, with one member.\<close>

definition numbered :: "nat \<Rightarrow> messageData" where
  "numbered i = \<lparr>msg_id = ''id'', msg_text = JNum (int i), msg_timestamp = int i,
             msg_sender = JStr ''Anonymous''\<rparr>"

definition busy_room :: "nat \<Rightarrow> state" where
  "busy_room n =
     \<lparr>rooms = [''ABCD1234'' \<mapsto> \<lparr>clients = [1], messages = map numbered [0..<n], createdAt = 0\<rparr>],
      clientRooms = [1 \<mapsto> ''ABCD1234'']\<rparr>"

text \<open>
  Three connections in room \<^verbatim>\<open>ABCD1234\<close>, and an environment in which the transport of
  connection 3 is not open.
\<close>

definition three_in_room :: state where
  "three_in_room =
     \<lparr>rooms = [''ABCD1234'' \<mapsto> \<lparr>clients = [1, 2, 3], messages = [], createdAt = 1000\<rparr>],
      clientRooms = [1 \<mapsto> ''ABCD1234'', 2 \<mapsto> ''ABCD1234'', 3 \<mapsto> ''ABCD1234'']\<rparr>"

definition third_closed :: env where
  "third_closed = \<lparr>isOpen = (\<lambda>c. c \<noteq> 3), randomBytes = bytesB, randomUUID = ''u7'', now = 2000\<rparr>"

text \<open>
  Connection 1 has sent \<^verbatim>\<open>hi\<close> to room \<^verbatim>\<open>ABCD1234\<close>, which it shares with
  connection 2.
\<close>

definition chatting :: state where
  "chatting = fst (run two_in_room [(all_open bytesB ''u2'' 1002, Message 1 (send_request ''hi''))])"

text \<open>
  Connection 1 creates room \<^verbatim>\<open>ABCD1234\<close>, connection 2 joins it, and connection 1 creates
  a second room, \<^verbatim>\<open>0000002A\<close>.
\<close>

definition created_twice :: "(env \<times> event) list" where
  "created_twice =
     [(all_open bytesA ''u0'' 1000, Message 1 (request ''create_room'')),
      (all_open bytesB ''u1'' 1001, Message 2 (join_request ''ABCD1234'')),
      (all_open bytesB ''u2'' 1002, Message 1 (request ''create_room''))]"

section \<open>Reading an output\<close>

text \<open>The sends of an output whose message is of a given kind, in order.\<close>

fun is_chat :: "server_msg \<Rightarrow> bool" where
  "is_chat (ChatMessage _) = True"
| "is_chat _ = False"

fun is_joined :: "server_msg \<Rightarrow> bool" where
  "is_joined (ParticipantJoined _) = True"
| "is_joined _ = False"

fun is_left :: "server_msg \<Rightarrow> bool" where
  "is_left (ParticipantLeft _) = True"
| "is_left _ = False"

definition deliveries :: "(server_msg \<Rightarrow> bool) \<Rightarrow> outputs \<Rightarrow> outputs" where
  "deliveries P out = filter (\<lambda>(c, x). P x) out"

section \<open>Well-formed states and the log of a room\<close>

text \<open>
  What every state of a run satisfies: keys are 8 characters long, a room's \<^verbatim>\<open>clients\<close> holds
  no connection twice, and a history holds at most 50 messages.
\<close>

definition room_ok :: "room \<Rightarrow> bool" where
  "room_ok rm = (distinct (clients rm) \<and> length (messages rm) \<le> 50)"

definition well_formed :: "state \<Rightarrow> bool" where
  "well_formed s =
     ((\<forall>k rm. rooms s k = Some rm \<longrightarrow> length k = 8 \<and> room_ok rm)
      \<and> (\<forall>ws k. clientRooms s ws = Some k \<longrightarrow> length k = 8))"

text \<open>
  The messages recorded, oldest first, in the room that is stored under \<open>k\<close>. One event
  changes the log \<open>L\<close> as follows: a \<^verbatim>\<open>create_room\<close> that generates \<open>k\<close> stores a new room and
  the log starts again; a \<^verbatim>\<open>send_message\<close> of a connection bound to \<open>k\<close> adds its message;
  and when no room is stored under \<open>k\<close> after the event, the log is empty.
\<close>

fun log_event :: "string \<Rightarrow> env \<times> event \<Rightarrow> state \<Rightarrow> messageData list \<Rightarrow> messageData list" where
  "log_event k (e, Message ws (Parsed m)) s L =
     (if mtype m = JStr ''create_room'' \<and> generateRoomKey (randomBytes e) = k then []
      else if mtype m = JStr ''send_message'' \<and> clientRooms s ws = Some k \<and> k \<noteq> []
      then L @ [make_message e m]
      else L)"
| "log_event k ev s L = L"

definition log_step :: "string \<Rightarrow> env \<times> event \<Rightarrow> state \<Rightarrow> messageData list \<Rightarrow> messageData list" where
  "log_step k ev s L = (if rooms (fst (step ev s)) k = None then [] else log_event k ev s L)"

fun recorded :: "string \<Rightarrow> state \<Rightarrow> (env \<times> event) list \<Rightarrow> messageData list \<Rightarrow> messageData list" where
  "recorded k s [] L = L"
| "recorded k s (ev # evs) L = recorded k (fst (step ev s)) evs (log_step k ev s L)"

section \<open>Agreement of the two maps\<close>

text \<open>
  The two maps agree when the members of every stored room are the connections bound to
  its key and every binding names a stored room. The empty string is no key.
\<close>

definition consistent :: "state \<Rightarrow> bool" where
  "consistent s =
     (rooms s [] = None
      \<and> (\<forall>c k. clientRooms s c = Some k \<longrightarrow> rooms s k \<noteq> None)
      \<and> (\<forall>k rm. rooms s k = Some rm \<longrightarrow> set (clients rm) = {c. clientRooms s c = Some k}))"

text \<open>
  The events after which agreement is known to stay: a \<^verbatim>\<open>create_room\<close> only from a
  connection that is bound to no room and only with a generated key that is not stored,
  and no \<^verbatim>\<open>join_room\<close> of a connection into the room of which it is the only member.
\<close>

fun admissible :: "state \<Rightarrow> env \<times> event \<Rightarrow> bool" where
  "admissible s (e, Message ws (Parsed m)) =
     ((mtype m = JStr ''create_room'' \<longrightarrow>
         clientRooms s ws = None \<and> rooms s (generateRoomKey (randomBytes e)) = None)
      \<and> (mtype m = JStr ''join_room'' \<longrightarrow>
         (\<forall>k rm. roomKey m = JStr k \<and> clientRooms s ws = Some k \<and> rooms s k = Some rm
                   \<longrightarrow> set (clients rm) \<noteq> {ws})))"
| "admissible s _ = True"

fun admissible_run :: "state \<Rightarrow> (env \<times> event) list \<Rightarrow> bool" where
  "admissible_run s [] = True"
| "admissible_run s (ev # evs) = (admissible s ev \<and> admissible_run (fst (step ev s)) evs)"

section \<open>Basic facts\<close>

lemma keyA: "generateRoomKey bytesA = ''ABCD1234''"
  by (simp add: bytesA_def generateRoomKey_def toUpperCase_def toHex_def hexDigit_def upperChar_def)

lemma keyB: "generateRoomKey bytesB = ''0000002A''"
  by (simp add: bytesB_def generateRoomKey_def toUpperCase_def toHex_def hexDigit_def upperChar_def)

lemmas scenario_defs = request_def join_request_def send_request_def all_open_def init_def
  create_room_def join_room_def leave_current_def send_message_def leave_room_def leave_bound_def
  on_close_def on_connection_def sendToClient_def broadcastToRoom_def set_add_def set_delete_def
  slice_last_def record_message_def make_message_def Let_def

lemma two_in_room_eq:
  "two_in_room =
     \<lparr>rooms = [''ABCD1234'' \<mapsto> \<lparr>clients = [1, 2], messages = [], createdAt = 1000\<rparr>],
      clientRooms = [1 \<mapsto> ''ABCD1234'', 2 \<mapsto> ''ABCD1234'']\<rparr>"
  by (simp add: two_in_room_def scenario_defs keyA)

lemma rejoined_alone_eq:
  "rejoined_alone = \<lparr>rooms = Map.empty, clientRooms = [1 \<mapsto> ''ABCD1234'']\<rparr>"
  by (simp add: rejoined_alone_def scenario_defs keyA)

lemma concat_if_filter:
  "concat (map (\<lambda>c. if P c then [f c] else []) xs) = map f (filter P xs)"
  by (induction xs) simp_all

lemma broadcastToRoom_eq:
  "broadcastToRoom e rs k msg ws =
     (case rs k of None \<Rightarrow> []
      | Some rm \<Rightarrow> map (\<lambda>c. (c, msg)) (filter (\<lambda>c. c \<noteq> ws \<and> isOpen e c) (clients rm)))"
  by (simp add: broadcastToRoom_def concat_if_filter split: option.splits)

lemma filter_set_add:
  "filter (\<lambda>c. c \<noteq> ws \<and> P c) (set_add ws xs) = filter (\<lambda>c. c \<noteq> ws \<and> P c) xs"
  by (simp add: set_add_def)

lemma filter_set_delete:
  "filter (\<lambda>c. c \<noteq> ws \<and> P c) (set_delete ws xs) = filter (\<lambda>c. c \<noteq> ws \<and> P c) xs"
  by (induction xs) (auto simp: set_delete_def)

lemma set_delete_empty:
  "set_delete ws xs = [] \<Longrightarrow> filter (\<lambda>c. c \<noteq> ws \<and> P c) xs = []"
  by (induction xs) (simp_all add: set_delete_def split: if_splits)

text \<open>
  What leaving the current room does to the room being joined: its history and creation
  time stay, the members other than \<open>ws\<close> stay, and when the room is gone from the map
  it had no member other than \<open>ws\<close>.
\<close>

lemma leave_current_alias:
  assumes "rooms s k = Some rm" and "leave_current ws k rm s = (rs1, ex1)"
  shows "messages ex1 = messages rm"
    and "createdAt ex1 = createdAt rm"
    and "\<And>P. filter (\<lambda>c. c \<noteq> ws \<and> P c) (clients ex1) = filter (\<lambda>c. c \<noteq> ws \<and> P c) (clients rm)"
    and "rs1 k = None \<or> rs1 k = Some ex1"
    and "\<And>P. rs1 k = None \<Longrightarrow> filter (\<lambda>c. c \<noteq> ws \<and> P c) (clients rm) = []"
  using assms
  by (auto simp: leave_current_def Let_def filter_set_delete set_delete_empty
      split: option.splits if_splits)

lemma join_room_output:
  assumes "rooms s k = Some rm"
  shows "\<exists>n. snd (join_room e ws (JStr k) s) =
           sendToClient e ws (RoomJoined k n)
           @ concat (map (\<lambda>msg. sendToClient e ws (ChatMessage msg)) (slice_last 10 (messages rm)))
           @ map (\<lambda>c. (c, ParticipantJoined n)) (filter (\<lambda>c. c \<noteq> ws \<and> isOpen e c) (clients rm))"
proof -
  obtain rs1 ex1 where lc: "leave_current ws k rm s = (rs1, ex1)"
    by (cases "leave_current ws k rm s")
  note al = leave_current_alias [OF assms lc]
  show ?thesis
  proof (cases "rs1 k")
    case None
    then show ?thesis
      using assms lc al(1) al(5)
      by (intro exI [where x = "length (set_add ws (clients ex1))"])
         (simp add: join_room_def broadcastToRoom_eq)
  next
    case (Some r)
    then have "r = ex1" using al(4) by simp
    then show ?thesis
      using assms lc al(1) al(3) Some
      by (intro exI [where x = "length (set_add ws (clients ex1))"])
         (simp add: join_room_def broadcastToRoom_eq filter_set_add)
  qed
qed

section \<open>History replay on join\<close>

text \<open>
  Claim C5. A connection with an open transport that joins an existing room whose history
  is \<open>messages rm\<close> is sent the \<^verbatim>\<open>room_joined\<close> reply first and, right after it, the last
  \<open>min 10 (length (messages rm))\<close> messages of the history, oldest first. These are the
  only chat messages sent, and they go to the joining connection; all that follows are the
  \<^verbatim>\<open>participant_joined\<close> notices for the other members.
\<close>

theorem join_room_replay:
  assumes "mtype m = JStr ''join_room''" and "roomKey m = JStr k"
    and "rooms s k = Some rm" and "isOpen e ws"
  shows "\<exists>n. snd (on_message e ws (Parsed m) s) =
           (ws, RoomJoined k n)
           # map (\<lambda>msg. (ws, ChatMessage msg)) (drop (length (messages rm) - 10) (messages rm))
           @ map (\<lambda>c. (c, ParticipantJoined n)) (filter (\<lambda>c. c \<noteq> ws \<and> isOpen e c) (clients rm))
         \<and> length (drop (length (messages rm) - 10) (messages rm)) = min 10 (length (messages rm))"
proof -
  have "concat (map (\<lambda>msg. sendToClient e ws (ChatMessage msg)) xs)
        = map (\<lambda>msg. (ws, ChatMessage msg)) xs" for xs
    using assms(4) by (induction xs) (simp_all add: sendToClient_def)
  then show ?thesis
    using join_room_output [OF assms(3), of e ws] assms(1,2,4)
    by (auto simp: sendToClient_def slice_last_def)
qed

theorem join_room_replay_witness:
  "snd (on_message (all_open bytesB ''u'' 9) 2 (join_request ''ABCD1234'') (busy_room 12)) =
     (2, RoomJoined ''ABCD1234'' 2)
     # map (\<lambda>msg. (2, ChatMessage msg)) (drop 2 (map numbered [0..<12]))
     @ [(1, ParticipantJoined 2)]"
proof -
  let ?m = "\<lparr>mtype = JStr ''join_room'', roomKey = JStr ''ABCD1234'', mtext = JUndefined,
             msender = JUndefined\<rparr>"
  let ?rm = "\<lparr>clients = [1], messages = map numbered [0..<12], createdAt = 0\<rparr>"
  let ?e = "all_open bytesB ''u'' 9"
  have h1: "mtype ?m = JStr ''join_room''" and h2: "roomKey ?m = JStr ''ABCD1234''"
    by simp_all
  have h3: "rooms (busy_room 12) ''ABCD1234'' = Some ?rm"
    by (simp add: busy_room_def)
  have h4: "isOpen ?e 2"
    by (simp add: all_open_def)
  from join_room_replay [OF h1 h2 h3 h4] obtain n where
    eq: "snd (on_message ?e 2 (Parsed ?m) (busy_room 12)) =
       (2, RoomJoined ''ABCD1234'' n)
       # map (\<lambda>msg. (2, ChatMessage msg)) (drop (length (messages ?rm) - 10) (messages ?rm))
       @ map (\<lambda>c. (c, ParticipantJoined n)) (filter (\<lambda>c. c \<noteq> 2 \<and> isOpen ?e c) (clients ?rm))"
    by blast
  have "hd (snd (on_message ?e 2 (Parsed ?m) (busy_room 12))) = (2, RoomJoined ''ABCD1234'' 2)"
    by (simp add: busy_room_def scenario_defs)
  with eq have "n = 2"
    by simp
  with eq show ?thesis
    by (simp add: join_request_def all_open_def)
qed

section \<open>Requests that are refused\<close>

text \<open>
  Claim C7. A \<^verbatim>\<open>join_room\<close> whose \<^verbatim>\<open>roomKey\<close> is not a key of \<^verbatim>\<open>rooms\<close> leaves both maps
  as they are and sends one \<^verbatim>\<open>join_error\<close> to the requesting connection (nothing when its
  transport is not open), whatever room the connection is in.
\<close>

theorem join_room_not_found:
  assumes "mtype m = JStr ''join_room''"
    and "\<And>k. roomKey m = JStr k \<Longrightarrow> rooms s k = None"
  shows "on_message e ws (Parsed m) s =
           (s, if isOpen e ws then [(ws, JoinError ''Room not found'')] else [])"
proof -
  have "rooms_get (rooms s) (roomKey m) = None"
    using assms(2) by (cases "roomKey m") simp_all
  then show ?thesis
    using assms(1) by (simp add: join_room_def sendToClient_def)
qed

theorem join_room_not_found_witness:
  "on_message (all_open bytesB ''u'' 9) 2 (join_request ''NOPE0000'') two_in_room =
     (two_in_room, [(2, JoinError ''Room not found'')])"
  using join_room_not_found [of "\<lparr>mtype = JStr ''join_room'', roomKey = JStr ''NOPE0000'',
    mtext = JUndefined, msender = JUndefined\<rparr>" two_in_room "all_open bytesB ''u'' 9" 2]
  by (simp add: join_request_def two_in_room_eq all_open_def)

text \<open>
  Claim C8. A \<^verbatim>\<open>send_message\<close> from a connection with no entry in \<^verbatim>\<open>clientRooms\<close> leaves
  both maps as they are, so no history changes, and its whole output is one
  \<^verbatim>\<open>error\<close> reply to that connection.
\<close>

theorem send_message_idle:
  assumes "mtype m = JStr ''send_message''" and "clientRooms s ws = None"
  shows "on_message e ws (Parsed m) s =
           (s, if isOpen e ws then [(ws, ErrorReply ''Not in a room'')] else [])"
  using assms by (simp add: send_message_def sendToClient_def)

theorem send_message_idle_witness:
  "on_message (all_open bytesB ''u'' 9) 3 (send_request ''hi'') two_in_room =
     (two_in_room, [(3, ErrorReply ''Not in a room'')])"
  using send_message_idle [of "\<lparr>mtype = JStr ''send_message'', roomKey = JUndefined,
    mtext = JStr ''hi'', msender = JUndefined\<rparr>" two_in_room 3 "all_open bytesB ''u'' 9"]
  by (simp add: send_request_def two_in_room_eq all_open_def)

text \<open>
  Claim C10. When \<^verbatim>\<open>clientRooms\<close> binds the connection to a key that \<^verbatim>\<open>rooms\<close> does not
  hold, a \<^verbatim>\<open>send_message\<close> is answered with the \<^verbatim>\<open>Room not found\<close> error and both maps
  stay as they are. The key is a non-empty string, as every key bound in a run is
  (\<open>reachable_binding_nonempty\<close>). The state of the witness is reached by a connection
  that joins the room it is alone in.
\<close>

theorem send_message_stale:
  assumes "mtype m = JStr ''send_message''"
    and "clientRooms s ws = Some k" and "k \<noteq> []" and "rooms s k = None"
  shows "on_message e ws (Parsed m) s =
           (s, if isOpen e ws then [(ws, ErrorReply ''Room not found'')] else [])"
  using assms by (simp add: send_message_def sendToClient_def)

theorem send_message_stale_witness:
  "on_message (all_open bytesB ''u'' 9) 1 (send_request ''hi'') rejoined_alone =
     (rejoined_alone, [(1, ErrorReply ''Room not found'')])"
  using send_message_stale [of "\<lparr>mtype = JStr ''send_message'', roomKey = JUndefined,
    mtext = JStr ''hi'', msender = JUndefined\<rparr>" rejoined_alone 1 "''ABCD1234''"
    "all_open bytesB ''u'' 9"]
  by (simp add: send_request_def rejoined_alone_eq all_open_def)

section \<open>Leaving twice\<close>

lemma leave_room_unbinds:
  "clientRooms (fst (leave_room e ws s)) ws = None
   \<or> clientRooms (fst (leave_room e ws s)) ws = Some []"
  by (simp add: leave_room_def split: option.splits prod.splits)

text \<open>
  Claim C9. After one \<^verbatim>\<open>leave_room\<close> of a connection, a second one changes neither map and
  sends nothing: no \<^verbatim>\<open>participant_left\<close>, no \<^verbatim>\<open>room_left\<close>, no error.
\<close>

theorem leave_room_twice:
  assumes "mtype m = JStr ''leave_room''"
  shows "on_message e2 ws (Parsed m) (fst (on_message e1 ws (Parsed m) s)) =
           (fst (on_message e1 ws (Parsed m) s), [])"
proof -
  have "leave_room e2 ws (fst (leave_room e1 ws s)) = (fst (leave_room e1 ws s), [])"
    using leave_room_unbinds [of e1 ws s] by (auto simp: leave_room_def)
  then show ?thesis using assms by simp
qed

theorem leave_room_twice_witness:
  "snd (on_message (all_open bytesB ''u'' 9) 2 (request ''leave_room'') two_in_room) =
     [(1, ParticipantLeft 1), (2, RoomLeft)] \<and>
   on_message (all_open bytesB ''v'' 10) 2 (request ''leave_room'')
     (fst (on_message (all_open bytesB ''u'' 9) 2 (request ''leave_room'') two_in_room)) =
     (fst (on_message (all_open bytesB ''u'' 9) 2 (request ''leave_room'') two_in_room), [])"
  using leave_room_twice [of "\<lparr>mtype = JStr ''leave_room'', roomKey = JUndefined,
    mtext = JUndefined, msender = JUndefined\<rparr>" "all_open bytesB ''v'' 10" 2
    "all_open bytesB ''u'' 9" two_in_room]
  by (simp add: request_def two_in_room_eq scenario_defs)

section \<open>Who receives a broadcast\<close>

lemma deliveries_Nil [simp]: "deliveries P [] = []"
  by (simp add: deliveries_def)

lemma deliveries_append [simp]: "deliveries P (xs @ ys) = deliveries P xs @ deliveries P ys"
  by (simp add: deliveries_def)

lemma deliveries_map [simp]:
  "deliveries P (map (\<lambda>c. (c, x)) cs) = (if P x then map (\<lambda>c. (c, x)) cs else [])"
  by (induction cs) (simp_all add: deliveries_def)

lemma deliveries_sendToClient [simp]:
  "deliveries P (sendToClient e c x) = (if P x then sendToClient e c x else [])"
  by (simp add: deliveries_def sendToClient_def)

lemma deliveries_concat_send:
  "(\<And>msg. \<not> P (f msg)) \<Longrightarrow>
     deliveries P (concat (map (\<lambda>msg. sendToClient e c (f msg)) xs)) = []"
  by (induction xs) simp_all

lemma send_message_output:
  assumes "clientRooms s ws = Some k" and "k \<noteq> []" and "rooms s k = Some rm"
  shows "snd (send_message e ws m s) =
           map (\<lambda>c. (c, ChatMessage (make_message e m))) (filter (isOpen e) (clients rm))
           @ (if is_string (mtext m) then []
              else sendToClient e ws (ErrorReply ''Invalid message format''))"
proof -
  have "concat (map (\<lambda>client. if isOpen e client then sendToClient e client x else []) cs)
        = map (\<lambda>c. (c, x)) (filter (isOpen e) cs)" for x cs
    by (induction cs) (simp_all add: sendToClient_def)
  then show ?thesis
    using assms by (simp add: send_message_def Let_def)
qed

lemma leave_bound_output:
  assumes "rooms s k = Some rm"
  shows "snd (leave_bound e ws k s) =
           map (\<lambda>c. (c, ParticipantLeft (length (set_delete ws (clients rm)))))
               (filter (\<lambda>c. c \<noteq> ws \<and> isOpen e c) (clients rm))"
  using assms
  by (simp add: leave_bound_def Let_def broadcastToRoom_eq filter_set_delete set_delete_empty)

lemma count_list_filter_distinct:
  "distinct xs \<Longrightarrow> count_list (filter P xs) c = (if c \<in> set xs \<and> P c then 1 else 0)"
  by (induction xs) auto

text \<open>
  Claim C6. Let \<open>rm\<close> be the room stored under \<open>k\<close>. A \<^verbatim>\<open>send_message\<close> of a connection
  bound to \<open>k\<close> sends the chat message to every member of \<open>rm\<close> whose transport is open,
  the sender not left out, and to each of them once. The \<^verbatim>\<open>participant_joined\<close> notices of
  a \<^verbatim>\<open>join_room\<close> into \<open>k\<close>, and the \<^verbatim>\<open>participant_left\<close> notices of a \<^verbatim>\<open>leave_room\<close> or
  a close of a connection bound to \<open>k\<close>, go to the members with an open transport other
  than the connection that joins or leaves. That \<^verbatim>\<open>clients\<close> holds no connection twice is
  true of every room of a run (\<open>reachable_clients_distinct\<close>).
\<close>

theorem broadcast_recipients:
  assumes "rooms s k = Some rm" and "distinct (clients rm)"
  shows "(mtype m = JStr ''send_message'' \<and> clientRooms s ws = Some k \<and> k \<noteq> [] \<longrightarrow>
            deliveries is_chat (snd (on_message e ws (Parsed m) s)) =
              map (\<lambda>c. (c, ChatMessage (make_message e m))) (filter (isOpen e) (clients rm))
            \<and> (\<forall>c. count_list (map fst (deliveries is_chat (snd (on_message e ws (Parsed m) s)))) c
                   = (if c \<in> set (clients rm) \<and> isOpen e c then 1 else 0)))
       \<and> (mtype m = JStr ''join_room'' \<and> roomKey m = JStr k \<longrightarrow>
            (\<exists>n. deliveries is_joined (snd (on_message e ws (Parsed m) s)) =
              map (\<lambda>c. (c, ParticipantJoined n)) (filter (\<lambda>c. c \<noteq> ws \<and> isOpen e c) (clients rm))))
       \<and> (mtype m = JStr ''leave_room'' \<and> clientRooms s ws = Some k \<and> k \<noteq> [] \<longrightarrow>
            deliveries is_left (snd (on_message e ws (Parsed m) s)) =
              map (\<lambda>c. (c, ParticipantLeft (length (set_delete ws (clients rm)))))
                  (filter (\<lambda>c. c \<noteq> ws \<and> isOpen e c) (clients rm)))
       \<and> (clientRooms s ws = Some k \<and> k \<noteq> [] \<longrightarrow>
            deliveries is_left (snd (on_close e ws s)) =
              map (\<lambda>c. (c, ParticipantLeft (length (set_delete ws (clients rm)))))
                  (filter (\<lambda>c. c \<noteq> ws \<and> isOpen e c) (clients rm)))"
proof (intro conjI impI; (elim conjE)?)
  assume a: "mtype m = JStr ''send_message''" "clientRooms s ws = Some k" "k \<noteq> []"
  show chat: "deliveries is_chat (snd (on_message e ws (Parsed m) s)) =
          map (\<lambda>c. (c, ChatMessage (make_message e m))) (filter (isOpen e) (clients rm))"
    using a send_message_output [OF a(2,3) assms(1), of e m] by simp
  show "\<forall>c. count_list (map fst (deliveries is_chat (snd (on_message e ws (Parsed m) s)))) c
                   = (if c \<in> set (clients rm) \<and> isOpen e c then 1 else 0)"
    unfolding chat using assms(2) by (simp add: comp_def count_list_filter_distinct)
next
  assume a: "mtype m = JStr ''join_room''" "roomKey m = JStr k"
  obtain n where "snd (join_room e ws (JStr k) s) =
           sendToClient e ws (RoomJoined k n)
           @ concat (map (\<lambda>msg. sendToClient e ws (ChatMessage msg)) (slice_last 10 (messages rm)))
           @ map (\<lambda>c. (c, ParticipantJoined n)) (filter (\<lambda>c. c \<noteq> ws \<and> isOpen e c) (clients rm))"
    using join_room_output [OF assms(1)] by blast
  then have "deliveries is_joined (snd (on_message e ws (Parsed m) s)) =
              map (\<lambda>c. (c, ParticipantJoined n)) (filter (\<lambda>c. c \<noteq> ws \<and> isOpen e c) (clients rm))"
    using a by (simp add: deliveries_concat_send)
  then show "\<exists>n. deliveries is_joined (snd (on_message e ws (Parsed m) s)) =
              map (\<lambda>c. (c, ParticipantJoined n)) (filter (\<lambda>c. c \<noteq> ws \<and> isOpen e c) (clients rm))"
    by blast
next
  assume a: "mtype m = JStr ''leave_room''" "clientRooms s ws = Some k" "k \<noteq> []"
  show "deliveries is_left (snd (on_message e ws (Parsed m) s)) =
              map (\<lambda>c. (c, ParticipantLeft (length (set_delete ws (clients rm)))))
                  (filter (\<lambda>c. c \<noteq> ws \<and> isOpen e c) (clients rm))"
    using a leave_bound_output [OF assms(1), of e ws]
    by (cases "leave_bound e ws k s") (simp add: leave_room_def)
next
  assume a: "clientRooms s ws = Some k" "k \<noteq> []"
  show "deliveries is_left (snd (on_close e ws s)) =
              map (\<lambda>c. (c, ParticipantLeft (length (set_delete ws (clients rm)))))
                  (filter (\<lambda>c. c \<noteq> ws \<and> isOpen e c) (clients rm))"
    using a leave_bound_output [OF assms(1), of e ws]
    by (cases "leave_bound e ws k s") (simp add: on_close_def)
qed

theorem broadcast_recipients_witness:
  "deliveries is_chat (snd (on_message third_closed 1 (send_request ''hi'') three_in_room)) =
     [(1, ChatMessage \<lparr>msg_id = ''u7'', msg_text = JStr ''hi'', msg_timestamp = 2000,
                        msg_sender = JStr ''Anonymous''\<rparr>),
      (2, ChatMessage \<lparr>msg_id = ''u7'', msg_text = JStr ''hi'', msg_timestamp = 2000,
                        msg_sender = JStr ''Anonymous''\<rparr>)]
   \<and> deliveries is_left (snd (on_message third_closed 2 (request ''leave_room'') three_in_room)) =
     [(1, ParticipantLeft 2)]
   \<and> deliveries is_left (snd (on_close third_closed 1 three_in_room)) = [(2, ParticipantLeft 2)]
   \<and> (\<exists>n. deliveries is_joined
            (snd (on_message third_closed 4 (join_request ''ABCD1234'') three_in_room)) =
          [(1, ParticipantJoined n), (2, ParticipantJoined n)])"
proof -
  let ?rm = "\<lparr>clients = [1, 2, 3], messages = [], createdAt = 1000\<rparr>"
  let ?k = "''ABCD1234''"
  have rm: "rooms three_in_room ?k = Some ?rm" and d: "distinct (clients ?rm)"
    by (simp_all add: three_in_room_def)
  have b: "clientRooms three_in_room 1 = Some ?k" "clientRooms three_in_room 2 = Some ?k"
    by (simp_all add: three_in_room_def)
  note send = broadcast_recipients [OF rm d, of "\<lparr>mtype = JStr ''send_message'', roomKey = JUndefined,
      mtext = JStr ''hi'', msender = JUndefined\<rparr>" 1 third_closed, THEN conjunct1]
  note leave = broadcast_recipients [OF rm d, of "\<lparr>mtype = JStr ''leave_room'', roomKey = JUndefined,
      mtext = JUndefined, msender = JUndefined\<rparr>" 2 third_closed, THEN conjunct2, THEN conjunct2,
      THEN conjunct1]
  note close = broadcast_recipients [OF rm d, of _ 1 third_closed, THEN conjunct2, THEN conjunct2,
      THEN conjunct2]
  note join = broadcast_recipients [OF rm d, of "\<lparr>mtype = JStr ''join_room'', roomKey = JStr ?k,
      mtext = JUndefined, msender = JUndefined\<rparr>" 4 third_closed, THEN conjunct2, THEN conjunct1]
  show ?thesis
    using send leave close join b
    by (simp add: send_request_def request_def join_request_def third_closed_def make_message_def
        set_delete_def)
qed

section \<open>The bounded history\<close>

lemma record_message_slice: "record_message h md = slice_last 50 (h @ [md])"
  by (simp add: record_message_def slice_last_def Let_def)

lemma slice_last_snoc: "slice_last n (slice_last n L @ [x]) = slice_last n (L @ [x])"
proof -
  have "Suc (length L) - (length L - n + n) + (length L - n) = Suc (length L) - n"
    by arith
  then show ?thesis
    by (simp add: slice_last_def)
qed

lemma length_slice_last: "length (slice_last n xs) = min n (length xs)"
  by (simp add: slice_last_def)

lemma leave_bound_rooms:
  "leave_bound e ws k s = (rs1, out) \<Longrightarrow> rs1 k' = Some rm' \<Longrightarrow>
     \<exists>rm. rooms s k' = Some rm \<and> messages rm' = messages rm \<and> createdAt rm' = createdAt rm
       \<and> (clients rm' = clients rm \<or> clients rm' = set_delete ws (clients rm))"
  by (auto simp: leave_bound_def Let_def split: option.splits if_splits)

lemma leave_current_rooms:
  "leave_current ws k ex s = (rs1, ex1) \<Longrightarrow> rs1 k' = Some rm' \<Longrightarrow>
     \<exists>rm. rooms s k' = Some rm \<and> messages rm' = messages rm \<and> createdAt rm' = createdAt rm
       \<and> (clients rm' = clients rm \<or> clients rm' = set_delete ws (clients rm))"
  by (auto simp: leave_current_def Let_def split: option.splits if_splits)

lemma join_room_rooms:
  assumes "rooms (fst (join_room e ws jk s)) k' = Some rm'"
  shows "\<exists>rm. rooms s k' = Some rm \<and> messages rm' = messages rm \<and> createdAt rm' = createdAt rm
       \<and> (clients rm' = clients rm \<or> clients rm' = set_delete ws (clients rm)
           \<or> clients rm' = set_add ws (clients rm)
           \<or> clients rm' = set_add ws (set_delete ws (clients rm)))"
proof (cases "rooms_get (rooms s) jk")
  case None
  then show ?thesis using assms by (simp add: join_room_def)
next
  case (Some p)
  obtain k ex where p: "p = (k, ex)" by (cases p)
  have ex: "rooms s k = Some ex"
    using Some p by (cases jk) (auto split: option.splits)
  obtain rs1 ex1 where lc: "leave_current ws k ex s = (rs1, ex1)"
    by (cases "leave_current ws k ex s")
  show ?thesis
  proof (cases "k' = k \<and> rs1 k \<noteq> None")
    case True
    then have "rs1 k = Some ex1"
      using leave_current_alias(4) [OF ex lc] by auto
    from leave_current_rooms [OF lc this] ex
    have "messages ex1 = messages ex \<and> createdAt ex1 = createdAt ex
       \<and> (clients ex1 = clients ex \<or> clients ex1 = set_delete ws (clients ex))"
      by auto
    moreover have "rm' = ex1\<lparr>clients := set_add ws (clients ex1)\<rparr>"
      using assms Some p lc True by (auto simp: join_room_def Let_def)
    ultimately show ?thesis using ex True by auto
  next
    case False
    then have "rs1 k' = Some rm'"
      using assms Some p lc by (auto simp: join_room_def Let_def split: if_splits)
    from leave_current_rooms [OF lc this] show ?thesis by auto
  qed
qed

lemma send_message_rooms:
  "rooms (fst (send_message e ws m s)) k' = Some rm' \<Longrightarrow>
     \<exists>rm. rooms s k' = Some rm \<and> createdAt rm' = createdAt rm \<and> clients rm' = clients rm
       \<and> messages rm' = (if clientRooms s ws = Some k' \<and> k' \<noteq> []
                          then record_message (messages rm) (make_message e m) else messages rm)"
  by (auto simp: send_message_def Let_def split: option.splits if_splits)

lemma leave_room_rooms:
  "rooms (fst (leave_room e ws s)) k' = Some rm' \<Longrightarrow>
     \<exists>rm. rooms s k' = Some rm \<and> messages rm' = messages rm \<and> createdAt rm' = createdAt rm
       \<and> (clients rm' = clients rm \<or> clients rm' = set_delete ws (clients rm))"
  by (auto simp: leave_room_def split: option.splits if_splits prod.splits
      dest: leave_bound_rooms)

lemma on_close_rooms:
  "rooms (fst (on_close e ws s)) k' = Some rm' \<Longrightarrow>
     \<exists>rm. rooms s k' = Some rm \<and> messages rm' = messages rm \<and> createdAt rm' = createdAt rm
       \<and> (clients rm' = clients rm \<or> clients rm' = set_delete ws (clients rm))"
  by (auto simp: on_close_def split: option.splits if_splits prod.splits
      dest: leave_bound_rooms)

lemma sweep_rooms:
  "rooms (fst (sweep e s)) k' = Some rm' \<Longrightarrow> rooms s k' = Some rm'"
  by (auto simp: sweep_def split: option.splits if_splits)

lemma create_room_rooms:
  "rooms (fst (create_room e ws s)) k' =
     (if k' = generateRoomKey (randomBytes e)
      then Some \<lparr>clients = [ws], messages = [], createdAt = now e\<rparr> else rooms s k')"
  by (simp add: create_room_def Let_def)


lemma on_message_rooms:
  assumes "rooms (fst (on_message e ws (Parsed m) s)) k = Some rm'"
    and "\<not> (mtype m = JStr ''create_room'' \<and> generateRoomKey (randomBytes e) = k)"
  shows "\<exists>rm. rooms s k = Some rm \<and> createdAt rm' = createdAt rm
       \<and> messages rm' = (if mtype m = JStr ''send_message'' \<and> clientRooms s ws = Some k \<and> k \<noteq> []
                          then record_message (messages rm) (make_message e m) else messages rm)
       \<and> (clients rm' = clients rm \<or> clients rm' = set_delete ws (clients rm)
           \<or> clients rm' = set_add ws (clients rm)
           \<or> clients rm' = set_add ws (set_delete ws (clients rm)))"
proof -
  consider (create) "mtype m = JStr ''create_room''"
    | (join) "mtype m = JStr ''join_room''"
    | (send) "mtype m = JStr ''send_message''"
    | (leave) "mtype m = JStr ''leave_room''"
    | (other) "mtype m \<noteq> JStr ''create_room''" "mtype m \<noteq> JStr ''join_room''"
        "mtype m \<noteq> JStr ''send_message''" "mtype m \<noteq> JStr ''leave_room''"
    by blast
  then show ?thesis
  proof cases
    case create
    then show ?thesis using assms by (simp add: create_room_rooms)
  next
    case join
    then show ?thesis using assms(1) join_room_rooms [of e ws "roomKey m" s k rm'] by auto
  next
    case send
    then show ?thesis using assms(1) send_message_rooms [of e ws m s k rm'] by auto
  next
    case leave
    then show ?thesis using assms(1) leave_room_rooms [of e ws s k rm'] by auto
  next
    case other
    then show ?thesis using assms(1) by (simp split: if_splits)
  qed
qed

lemma log_step_inv:
  assumes "\<forall>rm. rooms s k = Some rm \<longrightarrow> messages rm = slice_last 50 L"
  shows "\<forall>rm'. rooms (fst (step ev s)) k = Some rm' \<longrightarrow>
           messages rm' = slice_last 50 (log_step k ev s L)"
proof (intro allI impI)
  fix rm'
  assume r: "rooms (fst (step ev s)) k = Some rm'"
  obtain e x where ev: "ev = (e, x)" by (cases ev)
  show "messages rm' = slice_last 50 (log_step k ev s L)"
  proof (cases x)
    case (Connection ws)
    then show ?thesis using r ev assms by (simp add: log_step_def on_connection_def)
  next
    case (Message ws d)
    show ?thesis
    proof (cases d)
      case ParseError
      then show ?thesis using r ev Message assms by (simp add: log_step_def)
    next
      case (Parsed m)
      show ?thesis
      proof (cases "mtype m = JStr ''create_room'' \<and> generateRoomKey (randomBytes e) = k")
        case True
        then show ?thesis
          using r ev Message Parsed
          by (auto simp: log_step_def create_room_rooms slice_last_def)
      next
        case False
        have r': "rooms (fst (on_message e ws (Parsed m) s)) k = Some rm'"
          using r unfolding ev Message Parsed step.simps .
        from on_message_rooms [OF r' False]
        obtain rm where "rooms s k = Some rm"
          and "messages rm' = (if mtype m = JStr ''send_message'' \<and> clientRooms s ws = Some k \<and> k \<noteq> []
                          then record_message (messages rm) (make_message e m) else messages rm)"
          by blast
        then show ?thesis
          using r ev Message Parsed False assms
          by (auto simp: log_step_def record_message_slice slice_last_snoc)
      qed
    qed
  next
    case (Close ws)
    then show ?thesis
      using r ev assms on_close_rooms [of e ws s k rm'] by (auto simp: log_step_def)
  next
    case Sweep
    then show ?thesis
      using r ev assms sweep_rooms [of e s k rm'] by (auto simp: log_step_def)
  qed
qed

lemma recorded_inv:
  assumes "\<forall>rm. rooms s k = Some rm \<longrightarrow> messages rm = slice_last 50 L"
  shows "\<forall>rm'. rooms (fst (run s evs)) k = Some rm' \<longrightarrow>
           messages rm' = slice_last 50 (recorded k s evs L)"
  using assms
proof (induction evs arbitrary: s L)
  case Nil
  then show ?case by simp
next
  case (Cons ev evs)
  from Cons.IH [OF log_step_inv [OF Cons.prems, of ev]]
  show ?case by (simp split: prod.splits)
qed

text \<open>
  Claim C4. Along any run, the history of the room stored under \<open>k\<close> is the last 50
  messages of the log of that room, in the order they were recorded: it never holds more
  than 50 messages, and once more than 50 were recorded it holds exactly the 50 most recent
  ones. The run may start in any state whose history agrees with the log so far, the
  initial state among them.
\<close>

theorem history_keeps_last_50:
  assumes "\<forall>rm. rooms s k = Some rm \<longrightarrow> messages rm = slice_last 50 L"
  shows "\<forall>rm'. rooms (fst (run s evs)) k = Some rm' \<longrightarrow>
           messages rm' = drop (length (recorded k s evs L) - 50) (recorded k s evs L)
           \<and> length (messages rm') = min 50 (length (recorded k s evs L))"
  using recorded_inv [OF assms, of evs]
  by (auto simp: slice_last_def)

theorem history_keeps_last_50_witness:
  "\<exists>rm'. rooms (fst (run (busy_room 50)
             [(all_open bytesB ''u'' 9, Message 1 (send_request ''hi''))])) ''ABCD1234'' = Some rm'
     \<and> messages rm' =
         drop 1 (map numbered [0..<50])
         @ [\<lparr>msg_id = ''u'', msg_text = JStr ''hi'', msg_timestamp = 9,
             msg_sender = JStr ''Anonymous''\<rparr>]
     \<and> length (messages rm') = 50"
proof -
  let ?s = "busy_room 50"
  let ?L = "map numbered [0..<50]"
  let ?evs = "[(all_open bytesB ''u'' 9, Message 1 (send_request ''hi''))]"
  have h: "\<forall>rm. rooms ?s ''ABCD1234'' = Some rm \<longrightarrow> messages rm = slice_last 50 ?L"
    by (simp add: busy_room_def slice_last_def)
  have ex: "\<exists>rm'. rooms (fst (run ?s ?evs)) ''ABCD1234'' = Some rm'"
    by (simp add: busy_room_def send_request_def send_message_def Let_def)
  have log: "recorded ''ABCD1234'' ?s ?evs ?L =
      ?L @ [\<lparr>msg_id = ''u'', msg_text = JStr ''hi'', msg_timestamp = 9,
             msg_sender = JStr ''Anonymous''\<rparr>]"
    using ex by (simp add: log_step_def busy_room_def send_request_def make_message_def all_open_def)
  from ex history_keeps_last_50 [OF h, of ?evs] show ?thesis
    unfolding log by auto
qed

section \<open>Invariants of every run\<close>

lemma length_generateRoomKey: "length (generateRoomKey r) = 8"
  by (cases r) (simp add: generateRoomKey_def toUpperCase_def toHex_def)

lemma distinct_set_add: "distinct xs \<Longrightarrow> distinct (set_add x xs)"
  by (simp add: set_add_def)

lemma distinct_set_delete: "distinct xs \<Longrightarrow> distinct (set_delete x xs)"
  by (simp add: set_delete_def distinct_removeAll)

lemma length_record_message: "length (record_message h md) \<le> 50"
  by (simp add: record_message_def slice_last_def Let_def)

lemma step_rooms:
  assumes "rooms (fst (step (e, x) s)) k = Some rm'"
  shows "(k = generateRoomKey (randomBytes e) \<and> (\<exists>ws. rm' = \<lparr>clients = [ws], messages = [], createdAt = now e\<rparr>))
       \<or> (\<exists>rm ws. rooms s k = Some rm
            \<and> (messages rm' = messages rm \<or> (\<exists>md. messages rm' = record_message (messages rm) md))
            \<and> (clients rm' = clients rm \<or> clients rm' = set_delete ws (clients rm)
                \<or> clients rm' = set_add ws (clients rm)
                \<or> clients rm' = set_add ws (set_delete ws (clients rm))))"
proof (cases x)
  case (Connection ws)
  then show ?thesis using assms by (auto simp: on_connection_def)
next
  case (Message ws d)
  show ?thesis
  proof (cases d)
    case ParseError
    then show ?thesis using assms Message by auto
  next
    case (Parsed m)
    have r: "rooms (fst (on_message e ws (Parsed m) s)) k = Some rm'"
      using assms unfolding Message Parsed step.simps .
    show ?thesis
    proof (cases "mtype m = JStr ''create_room'' \<and> generateRoomKey (randomBytes e) = k")
      case True
      then show ?thesis using r by (auto simp: create_room_rooms)
    next
      case False
      from on_message_rooms [OF r False] show ?thesis
        by (auto split: if_splits)
    qed
  qed
next
  case (Close ws)
  then show ?thesis using assms on_close_rooms [of e ws s k rm'] by auto
next
  case Sweep
  then show ?thesis using assms sweep_rooms [of e s k rm'] by auto
qed

lemma leave_current_fst_dom:
  "leave_current ws k ex s = (rs1, ex1) \<Longrightarrow> rs1 k' = Some r \<Longrightarrow> rooms s k' \<noteq> None"
  by (auto dest: leave_current_rooms)

lemma join_room_bindings:
  "clientRooms (fst (join_room e ws jk s)) c = Some k \<Longrightarrow>
     clientRooms s c = Some k \<or> rooms s k \<noteq> None"
proof (cases "rooms_get (rooms s) jk")
  case None
  assume "clientRooms (fst (join_room e ws jk s)) c = Some k"
  then show ?thesis using None by (simp add: join_room_def)
next
  case (Some p)
  assume a: "clientRooms (fst (join_room e ws jk s)) c = Some k"
  obtain k0 ex where p: "p = (k0, ex)" by (cases p)
  have ex: "rooms s k0 = Some ex"
    using Some p by (cases jk) (auto split: option.splits)
  then show ?thesis
    using a Some p
    by (cases "leave_current ws k0 ex s") (auto simp: join_room_def Let_def split: if_splits)
qed

lemma step_bindings:
  assumes "clientRooms (fst (step (e, x) s)) c = Some k"
  shows "clientRooms s c = Some k \<or> k = generateRoomKey (randomBytes e) \<or> rooms s k \<noteq> None"
proof (cases x)
  case (Connection ws)
  then show ?thesis using assms by (auto simp: on_connection_def)
next
  case (Message ws d)
  show ?thesis
  proof (cases d)
    case ParseError
    then show ?thesis using assms Message by auto
  next
    case (Parsed m)
    have r: "clientRooms (fst (on_message e ws (Parsed m) s)) c = Some k"
      using assms unfolding Message Parsed step.simps .
    then show ?thesis
      using join_room_bindings [of e ws "roomKey m" s c k]
      by (auto simp: create_room_def Let_def send_message_def leave_room_def
          split: if_splits option.splits prod.splits)
  qed
next
  case (Close ws)
  then show ?thesis using assms
    by (auto simp: on_close_def split: if_splits option.splits prod.splits)
next
  case Sweep
  then show ?thesis using assms by (auto simp: sweep_def)
qed

lemma step_well_formed:
  assumes "well_formed s"
  shows "well_formed (fst (step ev s))"
proof -
  obtain e x where ev: "ev = (e, x)" by (cases ev)
  have "length k = 8 \<and> room_ok rm'" if "rooms (fst (step (e, x) s)) k = Some rm'" for k rm'
    using step_rooms [OF that] assms
    by (auto simp: well_formed_def room_ok_def length_generateRoomKey distinct_set_add
        distinct_set_delete length_record_message)
  moreover have "length k = 8" if "clientRooms (fst (step (e, x) s)) c = Some k" for c k
    using step_bindings [OF that] assms
    by (auto simp: well_formed_def length_generateRoomKey)
  ultimately show ?thesis
    unfolding ev well_formed_def by blast
qed

lemma fst_run_Cons: "fst (run s (ev # evs)) = fst (run (fst (step ev s)) evs)"
  by (cases "step ev s"; cases "run (fst (step ev s)) evs") simp

lemma run_well_formed: "well_formed s \<Longrightarrow> well_formed (fst (run s evs))"
proof (induction evs arbitrary: s)
  case Nil
  then show ?case by simp
next
  case (Cons ev evs)
  from Cons.IH [OF step_well_formed [OF Cons.prems, of ev]]
  show ?case by (simp only: fst_run_Cons)
qed

lemma reachable_well_formed: "reachable s \<Longrightarrow> well_formed s"
  using run_well_formed [of init]
  by (auto simp: reachable_def well_formed_def init_def)

section \<open>Creating a room\<close>

lemma chatting_eq:
  "chatting =
     \<lparr>rooms = [''ABCD1234'' \<mapsto>
        \<lparr>clients = [1, 2],
         messages = [\<lparr>msg_id = ''u2'', msg_text = JStr ''hi'', msg_timestamp = 1002,
                      msg_sender = JStr ''Anonymous''\<rparr>],
         createdAt = 1000\<rparr>],
      clientRooms = [1 \<mapsto> ''ABCD1234'', 2 \<mapsto> ''ABCD1234'']\<rparr>"
  by (simp add: chatting_def two_in_room_eq scenario_defs)

text \<open>
  Claim C3 does not hold of the code: \<^verbatim>\<open>create_room\<close> never looks the generated key up
  and never asks for another one, although line 11 calls the key unique. Here room
  \<^verbatim>\<open>ABCD1234\<close> holds connections 1 and 2 and one message, \<^verbatim>\<open>randomBytes\<close> yields the same
  four bytes again for connection 3, and the room is replaced by a new one whose only
  member is connection 3 and whose history is empty. Connections 1 and 2 stay bound to
  the key of a room they are no longer in.
\<close>

theorem create_room_overwrites:
  "generateRoomKey (randomBytes (all_open bytesA ''u3'' 1003)) = ''ABCD1234''
   \<and> rooms chatting ''ABCD1234'' =
      Some \<lparr>clients = [1, 2],
            messages = [\<lparr>msg_id = ''u2'', msg_text = JStr ''hi'', msg_timestamp = 1002,
                         msg_sender = JStr ''Anonymous''\<rparr>],
            createdAt = 1000\<rparr>
   \<and> on_message (all_open bytesA ''u3'' 1003) 3 (request ''create_room'') chatting =
      (\<lparr>rooms = [''ABCD1234'' \<mapsto> \<lparr>clients = [3], messages = [], createdAt = 1003\<rparr>],
        clientRooms = [1 \<mapsto> ''ABCD1234'', 2 \<mapsto> ''ABCD1234'', 3 \<mapsto> ''ABCD1234'']\<rparr>,
       [(3, RoomCreated ''ABCD1234'')])"
  by (simp add: chatting_eq request_def create_room_def sendToClient_def all_open_def keyA Let_def)

text \<open>
  What \<^verbatim>\<open>create_room\<close> does to \<^verbatim>\<open>rooms\<close> in every state: one entry is set, the one under
  the generated key. Every room under another key stays as it is, so a room is replaced
  only when the generated key is already a key of \<^verbatim>\<open>rooms\<close>.
\<close>

lemma create_room_sets_one_entry:
  assumes "mtype m = JStr ''create_room''"
  shows "rooms (fst (on_message e ws (Parsed m) s)) =
           (rooms s)(generateRoomKey (randomBytes e) \<mapsto>
                       \<lparr>clients = [ws], messages = [], createdAt = now e\<rparr>)
         \<and> (rooms s (generateRoomKey (randomBytes e)) = None \<longrightarrow>
              (\<forall>k rm. rooms s k = Some rm \<longrightarrow> rooms (fst (on_message e ws (Parsed m) s)) k = Some rm))"
  using assms by (auto simp: create_room_def Let_def)

lemma create_room_sets_one_entry_example:
  "rooms (fst (on_message (all_open bytesB ''u3'' 1003) 3 (request ''create_room'') chatting)) =
     (rooms chatting)(''0000002A'' \<mapsto> \<lparr>clients = [3], messages = [], createdAt = 1003\<rparr>)
   \<and> rooms (fst (on_message (all_open bytesB ''u3'' 1003) 3 (request ''create_room'') chatting))
        ''ABCD1234'' =
      Some \<lparr>clients = [1, 2],
            messages = [\<lparr>msg_id = ''u2'', msg_text = JStr ''hi'', msg_timestamp = 1002,
                         msg_sender = JStr ''Anonymous''\<rparr>],
            createdAt = 1000\<rparr>"
proof -
  let ?m = "\<lparr>mtype = JStr ''create_room'', roomKey = JUndefined, mtext = JUndefined,
             msender = JUndefined\<rparr>"
  let ?e = "all_open bytesB ''u3'' 1003"
  have h: "mtype ?m = JStr ''create_room''" by simp
  have k: "generateRoomKey (randomBytes ?e) = ''0000002A''"
    by (simp add: all_open_def keyB)
  have fresh: "rooms chatting ''0000002A'' = None"
    by (simp add: chatting_eq)
  have old: "rooms chatting ''ABCD1234'' =
      Some \<lparr>clients = [1, 2],
            messages = [\<lparr>msg_id = ''u2'', msg_text = JStr ''hi'', msg_timestamp = 1002,
                         msg_sender = JStr ''Anonymous''\<rparr>],
            createdAt = 1000\<rparr>"
    by (simp add: chatting_eq)
  from create_room_sets_one_entry [OF h, of ?e 3 chatting] fresh old
  show ?thesis
    unfolding k request_def by (simp add: all_open_def)
qed

text \<open>
  Claim C1 does not hold of the code: \<^verbatim>\<open>create_room\<close> has no statement that leaves the
  current room. Connection 1, a member of room \<^verbatim>\<open>ABCD1234\<close> with connection 2, sends
  \<^verbatim>\<open>create_room\<close>: it stays in the \<^verbatim>\<open>clients\<close> of \<^verbatim>\<open>ABCD1234\<close>, it is bound to the new room
  \<^verbatim>\<open>0000002A\<close>, and connection 2 is sent nothing. A \<^verbatim>\<open>leave_room\<close> in the same state removes
  it from the room and notifies connection 2.
\<close>

theorem create_room_in_room:
  "rooms (fst (on_message (all_open bytesB ''u2'' 1002) 1 (request ''create_room'') two_in_room))
      ''ABCD1234'' = Some \<lparr>clients = [1, 2], messages = [], createdAt = 1000\<rparr>
   \<and> rooms (fst (on_message (all_open bytesB ''u2'' 1002) 1 (request ''create_room'') two_in_room))
      ''0000002A'' = Some \<lparr>clients = [1], messages = [], createdAt = 1002\<rparr>
   \<and> clientRooms (fst (on_message (all_open bytesB ''u2'' 1002) 1 (request ''create_room'') two_in_room))
      1 = Some ''0000002A''
   \<and> snd (on_message (all_open bytesB ''u2'' 1002) 1 (request ''create_room'') two_in_room) =
      [(1, RoomCreated ''0000002A'')]
   \<and> snd (on_message (all_open bytesB ''u2'' 1002) 1 (request ''leave_room'') two_in_room) =
      [(2, ParticipantLeft 1), (1, RoomLeft)]
   \<and> rooms (fst (on_message (all_open bytesB ''u2'' 1002) 1 (request ''leave_room'') two_in_room))
      ''ABCD1234'' = Some \<lparr>clients = [2], messages = [], createdAt = 1000\<rparr>"
  by (simp add: two_in_room_eq request_def create_room_def leave_room_def leave_bound_def
      broadcastToRoom_def sendToClient_def set_delete_def all_open_def keyB Let_def)

text \<open>
  Claim C2 does not hold of the code, for the same reason. After the three requests of
  \<open>created_twice\<close>, connection 1 is a member of room \<^verbatim>\<open>ABCD1234\<close> and is bound to room
  \<^verbatim>\<open>0000002A\<close>: the members of \<^verbatim>\<open>ABCD1234\<close> are connections 1 and 2, the connections bound
  to it are connection 2 alone.
\<close>

theorem index_disagrees:
  "rooms (fst (run init created_twice)) ''ABCD1234'' =
      Some \<lparr>clients = [1, 2], messages = [], createdAt = 1000\<rparr>
   \<and> clientRooms (fst (run init created_twice)) 1 = Some ''0000002A''
   \<and> clientRooms (fst (run init created_twice)) 2 = Some ''ABCD1234''"
  by (simp add: created_twice_def scenario_defs keyA keyB)

section \<open>When the two maps agree\<close>

lemma set_set_add [simp]: "set (set_add x xs) = insert x (set xs)"
  by (auto simp: set_add_def)

lemma set_set_delete [simp]: "set (set_delete x xs) = set xs - {x}"
  by (simp add: set_delete_def)

lemma set_delete_Nil_iff: "set_delete x xs = [] \<longleftrightarrow> set xs \<subseteq> {x}"
  by (induction xs) (auto simp: set_delete_def)

lemma consistentI:
  assumes "rooms s [] = None"
    and "\<And>c k. clientRooms s c = Some k \<Longrightarrow> rooms s k \<noteq> None"
    and "\<And>k rm c. rooms s k = Some rm \<Longrightarrow> (c \<in> set (clients rm)) = (clientRooms s c = Some k)"
  shows "consistent s"
  using assms unfolding consistent_def by blast

lemma consistent_bound: "consistent s \<Longrightarrow> clientRooms s c = Some k \<Longrightarrow> \<exists>rm. rooms s k = Some rm"
  unfolding consistent_def by blast

lemma consistent_member:
  "consistent s \<Longrightarrow> rooms s k = Some rm \<Longrightarrow> (c \<in> set (clients rm)) = (clientRooms s c = Some k)"
  unfolding consistent_def by blast

lemma consistent_empty_key: "consistent s \<Longrightarrow> rooms s [] = None"
  unfolding consistent_def by blast

lemma create_room_consistent:
  assumes c: "consistent s" and u: "clientRooms s ws = None"
    and f: "rooms s (generateRoomKey (randomBytes e)) = None"
  shows "consistent (fst (create_room e ws s))"
proof (rule consistentI)
  let ?key = "generateRoomKey (randomBytes e)"
  have ne: "?key \<noteq> []"
    using length_generateRoomKey [of "randomBytes e"] by auto
  show "rooms (fst (create_room e ws s)) [] = None"
    using ne consistent_empty_key [OF c] by (simp add: create_room_def Let_def)
  show "rooms (fst (create_room e ws s)) k \<noteq> None"
    if "clientRooms (fst (create_room e ws s)) c' = Some k" for c' k
    using that consistent_bound [OF c, of c' k]
    by (auto simp: create_room_def Let_def split: if_splits)
  show "(c' \<in> set (clients rm)) = (clientRooms (fst (create_room e ws s)) c' = Some k)"
    if "rooms (fst (create_room e ws s)) k = Some rm" for k rm c'
  proof (cases "k = ?key")
    case True
    have "clientRooms s c' \<noteq> Some ?key"
      using consistent_bound [OF c, of c' ?key] f by auto
    then show ?thesis
      using that True by (auto simp: create_room_def Let_def)
  next
    case False
    then have "rooms s k = Some rm"
      using that by (simp add: create_room_def Let_def)
    from consistent_member [OF c this, of c'] show ?thesis
      using False u by (auto simp: create_room_def Let_def)
  qed
qed

lemma leave_bound_consistent:
  assumes c: "consistent s" and b: "clientRooms s ws = Some k"
  shows "consistent \<lparr>rooms = fst (leave_bound e ws k s), clientRooms = (clientRooms s)(ws := None)\<rparr>"
    (is "consistent ?s'")
proof -
  obtain rm where rm: "rooms s k = Some rm"
    using consistent_bound [OF c b] by blast
  let ?rm' = "rm\<lparr>clients := set_delete ws (clients rm)\<rparr>"
  have rs: "fst (leave_bound e ws k s) = (if set (clients rm) \<subseteq> {ws} then (rooms s)(k := None)
                         else (rooms s)(k \<mapsto> ?rm'))"
    using rm by (auto simp: leave_bound_def Let_def set_delete_Nil_iff)
  show ?thesis
  proof (rule consistentI)
    show "rooms ?s' [] = None"
      using consistent_empty_key [OF c] rm by (auto simp: rs)
    show "rooms ?s' k' \<noteq> None" if "clientRooms ?s' c' = Some k'" for c' k'
    proof -
      have b': "clientRooms s c' = Some k'" and "c' \<noteq> ws"
        using that by (auto split: if_splits)
      then have "k' = k \<Longrightarrow> \<not> set (clients rm) \<subseteq> {ws}"
        using consistent_member [OF c rm, of c'] by auto
      then show ?thesis
        using consistent_bound [OF c b'] by (auto simp: rs)
    qed
    show "(c' \<in> set (clients rm')) = (clientRooms ?s' c' = Some k')"
      if "rooms ?s' k' = Some rm'" for k' rm' c'
    proof (cases "k' = k")
      case True
      then have "rm' = ?rm'"
        using that by (auto simp: rs split: if_splits)
      then show ?thesis
        using consistent_member [OF c rm, of c'] True by auto
    next
      case False
      then have "rooms s k' = Some rm'"
        using that by (auto simp: rs split: if_splits)
      from consistent_member [OF c this, of c'] show ?thesis
        using False b by auto
    qed
  qed
qed

lemma leave_room_consistent: "consistent s \<Longrightarrow> consistent (fst (leave_room e ws s))"
  using leave_bound_consistent [of s ws _ e]
  by (auto simp: leave_room_def split: option.splits prod.splits)

lemma on_close_consistent: "consistent s \<Longrightarrow> consistent (fst (on_close e ws s))"
  using leave_bound_consistent [of s ws _ e]
  by (auto simp: on_close_def split: option.splits prod.splits)

lemma send_message_consistent:
  assumes c: "consistent s"
  shows "consistent (fst (send_message e ws m s))"
proof (rule consistentI)
  show "rooms (fst (send_message e ws m s)) [] = None"
    using consistent_empty_key [OF c]
    by (auto simp: send_message_def Let_def split: option.splits)
  show "rooms (fst (send_message e ws m s)) k \<noteq> None"
    if "clientRooms (fst (send_message e ws m s)) c' = Some k" for c' k
    using that consistent_bound [OF c, of c' k]
    by (auto simp: send_message_def Let_def split: option.splits if_splits)
  show "(c' \<in> set (clients rm')) = (clientRooms (fst (send_message e ws m s)) c' = Some k)"
    if "rooms (fst (send_message e ws m s)) k = Some rm'" for k rm' c'
  proof -
    from send_message_rooms [OF that] obtain rm where
      "rooms s k = Some rm" "clients rm' = clients rm" by blast
    moreover have "clientRooms (fst (send_message e ws m s)) = clientRooms s"
      by (auto simp: send_message_def Let_def split: option.splits)
    ultimately show ?thesis
      using consistent_member [OF c, of k rm c'] by simp
  qed
qed

lemma sweep_consistent:
  assumes c: "consistent s"
  shows "consistent (fst (sweep e s))"
proof (rule consistentI)
  show "rooms (fst (sweep e s)) [] = None"
    using consistent_empty_key [OF c] by (simp add: sweep_def)
  show "rooms (fst (sweep e s)) k \<noteq> None" if "clientRooms (fst (sweep e s)) c' = Some k" for c' k
  proof -
    have b: "clientRooms s c' = Some k" using that by (simp add: sweep_def)
    then obtain rm where rm: "rooms s k = Some rm"
      using consistent_bound [OF c] by blast
    have "c' \<in> set (clients rm)"
      using consistent_member [OF c rm, of c'] b by simp
    then have "clients rm \<noteq> []" by auto
    then show ?thesis using rm by (simp add: sweep_def)
  qed
  show "(c' \<in> set (clients rm)) = (clientRooms (fst (sweep e s)) c' = Some k)"
    if "rooms (fst (sweep e s)) k = Some rm" for k rm c'
    using consistent_member [OF c sweep_rooms [OF that], of c'] by (simp add: sweep_def)
qed


lemma leave_current_consistent:
  assumes c: "consistent s"
  shows "consistent \<lparr>rooms = fst (leave_current ws k ex s), clientRooms = (clientRooms s)(ws := None)\<rparr>"
proof (cases "clientRooms s ws")
  case None
  then have "(clientRooms s)(ws := None) = clientRooms s" by auto
  then show ?thesis using None c by (simp add: leave_current_def consistent_def)
next
  case (Some cur)
  obtain rm where rm: "rooms s cur = Some rm"
    using consistent_bound [OF c Some] by blast
  then have "cur \<noteq> []"
    using consistent_empty_key [OF c] by auto
  then have "fst (leave_current ws k ex s) = fst (leave_bound e ws cur s)" for e
    using Some rm by (auto simp: leave_current_def leave_bound_def Let_def)
  then show ?thesis
    using leave_bound_consistent [OF c Some] by simp
qed

lemma add_member_consistent:
  assumes c: "consistent s" and u: "clientRooms s ws = None" and r: "rooms s k = Some rm"
  shows "consistent \<lparr>rooms = (rooms s)(k \<mapsto> rm\<lparr>clients := set_add ws (clients rm)\<rparr>),
                      clientRooms = (clientRooms s)(ws \<mapsto> k)\<rparr>" (is "consistent ?s'")
proof (rule consistentI)
  have ne: "k \<noteq> []" using consistent_empty_key [OF c] r by auto
  show "rooms ?s' [] = None"
    using ne consistent_empty_key [OF c] by simp
  show "rooms ?s' k' \<noteq> None" if "clientRooms ?s' c' = Some k'" for c' k'
    using that consistent_bound [OF c, of c' k'] by (auto split: if_splits)
  show "(c' \<in> set (clients rm')) = (clientRooms ?s' c' = Some k')"
    if "rooms ?s' k' = Some rm'" for k' rm' c'
  proof (cases "k' = k")
    case True
    then show ?thesis
      using that consistent_member [OF c r, of c'] u by auto
  next
    case False
    then have "rooms s k' = Some rm'" using that by simp
    from consistent_member [OF c this, of c'] show ?thesis
      using False u by auto
  qed
qed

lemma join_room_consistent:
  assumes c: "consistent s"
    and a: "\<And>k rm. jk = JStr k \<Longrightarrow> clientRooms s ws = Some k \<Longrightarrow> rooms s k = Some rm
              \<Longrightarrow> set (clients rm) \<noteq> {ws}"
  shows "consistent (fst (join_room e ws jk s))"
proof (cases "rooms_get (rooms s) jk")
  case None
  then show ?thesis using c by (simp add: join_room_def)
next
  case (Some p)
  obtain k ex where p: "p = (k, ex)" by (cases p)
  have jk: "jk = JStr k" and ex: "rooms s k = Some ex"
    using Some p by (cases jk; auto split: option.splits)+
  obtain rs1 ex1 where lc: "leave_current ws k ex s = (rs1, ex1)"
    by (cases "leave_current ws k ex s")
  let ?s1 = "\<lparr>rooms = rs1, clientRooms = (clientRooms s)(ws := None)\<rparr>"
  have c1: "consistent ?s1"
    using leave_current_consistent [OF c, of ws k ex] lc by simp
  have kept: "rs1 k = Some ex1"
  proof (cases "clientRooms s ws = Some k")
    case True
    have "ws \<in> set (clients ex)"
      using consistent_member [OF c ex, of ws] True by simp
    moreover have "set (clients ex) \<noteq> {ws}"
      using a [OF jk True ex] .
    ultimately have "set_delete ws (clients ex) \<noteq> []"
      by (auto simp: set_delete_Nil_iff)
    then show ?thesis
      using lc True ex consistent_empty_key [OF c]
      by (auto simp: leave_current_def Let_def split: if_splits)
  next
    case False
    then have "rs1 k = rooms s k \<and> ex1 = ex"
      using lc by (auto simp: leave_current_def Let_def split: option.splits if_splits)
    then show ?thesis using ex by simp
  qed
  have "fst (join_room e ws jk s) =
          \<lparr>rooms = (rooms ?s1)(k \<mapsto> ex1\<lparr>clients := set_add ws (clients ex1)\<rparr>),
           clientRooms = (clientRooms ?s1)(ws \<mapsto> k)\<rparr>"
    using Some p lc kept by (simp add: join_room_def Let_def)
  moreover have "consistent \<lparr>rooms = (rooms ?s1)(k \<mapsto> ex1\<lparr>clients := set_add ws (clients ex1)\<rparr>),
           clientRooms = (clientRooms ?s1)(ws \<mapsto> k)\<rparr>"
    by (rule add_member_consistent [OF c1]) (simp_all add: kept)
  ultimately show ?thesis by simp
qed

lemma step_consistent:
  assumes c: "consistent s" and a: "admissible s ev"
  shows "consistent (fst (step ev s))"
proof -
  obtain e x where ev: "ev = (e, x)" by (cases ev)
  show ?thesis
  proof (cases x)
    case (Connection ws)
    then show ?thesis using c ev by (simp add: on_connection_def)
  next
    case (Message ws d)
    show ?thesis
    proof (cases d)
      case ParseError
      then show ?thesis using c ev Message by simp
    next
      case (Parsed m)
      have adm: "mtype m = JStr ''create_room'' \<Longrightarrow>
                   clientRooms s ws = None \<and> rooms s (generateRoomKey (randomBytes e)) = None"
        and adj: "\<And>k rm. mtype m = JStr ''join_room'' \<Longrightarrow> roomKey m = JStr k \<Longrightarrow>
                   clientRooms s ws = Some k \<Longrightarrow> rooms s k = Some rm \<Longrightarrow> set (clients rm) \<noteq> {ws}"
        using a unfolding ev Message Parsed by auto
      have "consistent (fst (on_message e ws (Parsed m) s))"
        using c adm create_room_consistent [OF c, of ws e]
          join_room_consistent [OF c, of "roomKey m" ws e] adj
          send_message_consistent [OF c, of e ws m] leave_room_consistent [OF c, of e ws]
        by (auto simp del: admissible.simps)
      then show ?thesis using ev Message Parsed by simp
    qed
  next
    case (Close ws)
    then show ?thesis using on_close_consistent [OF c] ev by simp
  next
    case Sweep
    then show ?thesis using sweep_consistent [OF c] ev by simp
  qed
qed

text \<open>
  Along a run of admissible events the two maps agree. The three events left out are the
  ones that break the agreement: a \<^verbatim>\<open>create_room\<close> of a connection that is in a room (the
  connection stays a member of the old room), a \<^verbatim>\<open>create_room\<close> whose key is already stored
  (the members of the replaced room stay bound to the key), and a \<^verbatim>\<open>join_room\<close> of a
  connection into the room it is alone in (the room is deleted and the binding stays).
\<close>

lemma run_consistent:
  "consistent s \<Longrightarrow> admissible_run s evs \<Longrightarrow> consistent (fst (run s evs))"
proof (induction evs arbitrary: s)
  case Nil
  then show ?case by simp
next
  case (Cons ev evs)
  then have "consistent (fst (step ev s))" and "admissible_run (fst (step ev s)) evs"
    using step_consistent by auto
  from Cons.IH [OF this] show ?case by (simp only: fst_run_Cons)
qed

lemma init_consistent: "consistent init"
  by (simp add: consistent_def init_def)

lemma created_twice_inconsistent: "\<not> consistent (fst (run init created_twice))"
proof
  assume c: "consistent (fst (run init created_twice))"
  have r: "rooms (fst (run init created_twice)) ''ABCD1234'' =
             Some \<lparr>clients = [1, 2], messages = [], createdAt = 1000\<rparr>"
    and b: "clientRooms (fst (run init created_twice)) 1 = Some ''0000002A''"
    by (simp_all add: created_twice_def scenario_defs keyA keyB)
  from consistent_member [OF c r, of 1] b show False
    by simp
qed

lemma overwritten_inconsistent:
  "\<not> consistent (fst (on_message (all_open bytesA ''u3'' 1003) 3 (request ''create_room'') chatting))"
proof
  let ?s = "fst (on_message (all_open bytesA ''u3'' 1003) 3 (request ''create_room'') chatting)"
  assume c: "consistent ?s"
  have r: "rooms ?s ''ABCD1234'' = Some \<lparr>clients = [3], messages = [], createdAt = 1003\<rparr>"
    and b: "clientRooms ?s 1 = Some ''ABCD1234''"
    by (simp_all add: chatting_eq request_def create_room_def all_open_def keyA Let_def)
  from consistent_member [OF c r, of 1] b show False
    by simp
qed

lemma rejoined_alone_inconsistent: "\<not> consistent rejoined_alone"
  by (simp add: consistent_def rejoined_alone_eq)

lemma reachable_run: "reachable (fst (run init evs))"
  unfolding reachable_def by blast

lemma reachable_binding_nonempty:
  "reachable s \<Longrightarrow> clientRooms s ws = Some k \<Longrightarrow> k \<noteq> []"
  using reachable_well_formed [of s] by (fastforce simp: well_formed_def)

lemma reachable_clients_distinct:
  "reachable s \<Longrightarrow> rooms s k = Some rm \<Longrightarrow> distinct (clients rm)"
  using reachable_well_formed [of s] by (auto simp: well_formed_def room_ok_def)

lemma reachable_history_bounded:
  "reachable s \<Longrightarrow> rooms s k = Some rm \<Longrightarrow> length (messages rm) \<le> 50"
  using reachable_well_formed [of s] by (auto simp: well_formed_def room_ok_def)

lemma reachable_two_in_room: "reachable two_in_room"
  unfolding two_in_room_def by (rule reachable_run)

lemma reachable_rejoined_alone: "reachable rejoined_alone"
  unfolding rejoined_alone_def by (rule reachable_run)

end
